theory Spec2Isabelle
  imports Complex_Main "HOL-Library.AList"
begin

section \<open>Errors and JSON payloads\<close>

text \<open>
  The exceptions that the modelled code raises or lets through.  \<open>RuntimeError\<close> is the
  rate-limit exhaustion error of \<open>_get\<close>; \<open>HTTPError\<close> is what
  \<open>response.raise_for_status()\<close> raises and carries the status code; \<open>RequestException\<close>
  is the network-level failure that \<open>_get\<close> re-raises; \<open>OSError\<close> and the three errors
  before it are raised by operations on the file system; the others come from
  conversions, indexing and exhausted test stubs.
\<close>

datatype error =
    RequestException
  | RuntimeError
  | HTTPError int
  | ValueError
  | JSONDecodeError
  | IndexError
  | KeyError
  | TypeError
  | StopIteration
  | FileExistsError
  | NotADirectoryError
  | IsADirectoryError
  | OSError

text \<open>
  A parsed JSON body, as far as \<open>paginate_fetch\<close> inspects it.  The rows of a list are
  kept abstract (type \<open>'r\<close>): they are only handed to \<open>extract_timestamp\<close>.  Of an object
  only its keys are looked at (\<open>"code" in payload\<close>).  Python's \<open>None\<close> is \<open>JNull\<close>.
\<close>

datatype 'r json =
    JNull
  | JBool bool
  | JNum real
  | JStr string
  | JArr "'r list"
  | JObj "string list"

text \<open>Python truthiness, as used by \<open>if not payload\<close>.\<close>

fun truthy :: "'r json \<Rightarrow> bool" where
  "truthy JNull = False"
| "truthy (JBool b) = b"
| "truthy (JNum x) = (x \<noteq> 0)"
| "truthy (JStr s) = (s \<noteq> [])"
| "truthy (JArr rows) = (rows \<noteq> [])"
| "truthy (JObj keys) = (keys \<noteq> [])"

text \<open>
  A call that may raise returns a value of type \<open>error + 'a\<close>: \<open>Inl e\<close> is the exception
  \<open>e\<close>, \<open>Inr v\<close> the returned value \<open>v\<close>.
\<close>

section \<open>The throttled HTTP fetcher \<open>_get\<close>\<close>

definition MAX_RETRIES :: nat where
  "MAX_RETRIES = 5"

text \<open>
  The part of a \<open>requests\<close> response that \<open>_get\<close> reads: the status code, the
  \<open>Retry-After\<close> header (\<open>None\<close> when absent) and the result of \<open>response.json()\<close>,
  which raises on a body that is not JSON.
\<close>

record 'r response =
  status_code :: int
  retry_after :: "string option"
  json_body :: "error + 'r json"

text \<open>
  What one \<open>SESSION.get\<close> call does: it raises \<open>requests.RequestException\<close> or it
  returns a response.
\<close>

datatype 'r net_event = Failed | Responded "'r response"

text \<open>\<open>jitter_delay\<close>: the argument \<open>j\<close> is the value drawn by \<open>random.uniform(0, 1)\<close>.\<close>

definition jitter_delay :: "real \<Rightarrow> real \<Rightarrow> real" where
  "jitter_delay j base_delay = base_delay + j"

text \<open>
  The effects of \<open>_get\<close> on the outside world, in the order in which they happen: a call
  of \<open>SESSION.get\<close>, or a call of \<open>time.sleep\<close> with its duration.
\<close>

datatype io = Get | Sleep real

text \<open>\<open>time.sleep\<close>: a negative duration raises \<open>ValueError\<close>.\<close>

definition sleep :: "real \<Rightarrow> io list \<Rightarrow> error + io list" where
  "sleep d trace = (if d < 0 then Inl ValueError else Inr (trace @ [Sleep d]))"

text \<open>
  \<open>response.raise_for_status()\<close> of the \<open>requests\<close> library: it raises \<open>HTTPError\<close> for a
  status from 400 to 599 and returns normally for every other status.
\<close>

definition raise_for_status :: "int \<Rightarrow> error + unit" where
  "raise_for_status st = (if 400 \<le> st \<and> st < 600 then Inl (HTTPError st) else Inr ())"

text \<open>
  The \<open>while True\<close> loop of \<open>_get\<close>.  The environment is given by three inputs:
  \<open>net k\<close> is what the \<open>k\<close>-th call of \<open>SESSION.get\<close> does, \<open>jit k\<close> is the jitter drawn
  in the \<open>k\<close>-th iteration, and \<open>pyfloat\<close> is Python's \<open>float\<close> on strings (which raises
  \<open>ValueError\<close> on a string that is no number).  The loop state is the attempt counter
  and the backoff; \<open>trace\<close> collects the effects so far.  The loop may run forever, so
  the result is an option: \<open>None\<close> means that \<open>_get\<close> does not return.
\<close>

partial_function (option) get_loop ::
  "(nat \<Rightarrow> 'r net_event) \<Rightarrow> (nat \<Rightarrow> real) \<Rightarrow> (string \<Rightarrow> error + real) \<Rightarrow>
   nat \<Rightarrow> real \<Rightarrow> io list \<Rightarrow> ((error + 'r json) \<times> io list) option"
where
  "get_loop net jit pyfloat attempts0 backoff trace0 =
    (let attempts = attempts0 + 1;
         trace = trace0 @ [Get]
     in
     case net attempts of
       Failed \<Rightarrow>
         if attempts > MAX_RETRIES then Some (Inl RequestException, trace)
         else (case sleep (jitter_delay (jit attempts) backoff) trace of
                 Inl e \<Rightarrow> Some (Inl e, trace)
               | Inr trace' \<Rightarrow> get_loop net jit pyfloat attempts (backoff * 2) trace')
     | Responded response \<Rightarrow>
         if status_code response = 200 then
           Some (json_body response, trace)
         else if status_code response = 429 \<or> status_code response = 418 then
           (if attempts > MAX_RETRIES then Some (Inl RuntimeError, trace)
            else
              (case (case retry_after response of
                       None \<Rightarrow> Inr backoff
                     | Some s \<Rightarrow> if s \<noteq> [] then pyfloat s else Inr backoff) of
                 Inl e \<Rightarrow> Some (Inl e, trace)
               | Inr delay \<Rightarrow>
                   (case sleep (jitter_delay (jit attempts) delay) trace of
                      Inl e \<Rightarrow> Some (Inl e, trace)
                    | Inr trace' \<Rightarrow>
                        get_loop net jit pyfloat attempts (min (backoff * 2) 60) trace')))
         else if status_code response = 400 then Some (Inr JNull, trace)
         else
           (case raise_for_status (status_code response) of
              Inl e \<Rightarrow> Some (Inl e, trace)
            | Inr u \<Rightarrow> get_loop net jit pyfloat attempts backoff trace))"

declare get_loop.simps [code]

text \<open>\<open>_get\<close>: the loop entered with \<open>attempts = 0\<close> and \<open>backoff = 5.0\<close>.\<close>

definition get :: "(nat \<Rightarrow> 'r net_event) \<Rightarrow> (nat \<Rightarrow> real) \<Rightarrow> (string \<Rightarrow> error + real) \<Rightarrow>
    ((error + 'r json) \<times> io list) option" where
  "get net jit pyfloat = get_loop net jit pyfloat 0 5 []"

section \<open>The pagination engine \<open>paginate_fetch\<close>\<close>

text \<open>
  The query parameters of a request: a Python dict from strings to strings or integers,
  kept as an association list in insertion order; \<open>params[k] = v\<close> is \<open>AList.update k v\<close>.
\<close>

datatype pval = PStr string | PInt int

type_synonym params = "(string \<times> pval) list"

text \<open>
  The dict built at the top of each iteration: \<open>symbol\<close> and \<open>limit\<close>, and \<open>endTime\<close>
  when the cursor \<open>end_time\<close> is not \<open>None\<close>.
\<close>

definition request_params :: "string \<Rightarrow> int \<Rightarrow> int option \<Rightarrow> params" where
  "request_params symbol limit end_time =
     (let params = [(''symbol'', PStr symbol), (''limit'', PInt limit)] in
      case end_time of
        None \<Rightarrow> params
      | Some c \<Rightarrow> AList.update ''endTime'' (PInt c) params)"

text \<open>
  The comprehension \<open>[row for row in payload if extract_timestamp(row) >= earliest_ms]\<close>.
  \<open>extract_timestamp\<close> is a parameter of \<open>paginate_fetch\<close> and may raise (the adapters
  pass \<open>int(row[0])\<close> and \<open>int(row["timestamp"])\<close>); the first exception ends the
  comprehension.
\<close>

fun valid_rows :: "('r \<Rightarrow> error + int) \<Rightarrow> int \<Rightarrow> 'r list \<Rightarrow> error + 'r list" where
  "valid_rows extract_timestamp earliest_ms [] = Inr []"
| "valid_rows extract_timestamp earliest_ms (row # payload) =
     (case extract_timestamp row of
        Inl e \<Rightarrow> Inl e
      | Inr t \<Rightarrow>
          (case valid_rows extract_timestamp earliest_ms payload of
             Inl e \<Rightarrow> Inl e
           | Inr rest \<Rightarrow> Inr (if t \<ge> earliest_ms then row # rest else rest)))"

text \<open>How an iteration of the pagination loop ends: \<open>break\<close>, or \<open>continue\<close> with a new cursor.\<close>

datatype cursor_step = Stop | Continue int

text \<open>
  The body of the pagination loop after \<open>_get\<close> has returned \<open>payload\<close>: the rows to append
  to \<open>all_rows\<close> and how the iteration ends.  A falsy payload, an object with a \<open>code\<close>
  key and anything that is not a non-empty list end the loop with nothing appended.
\<close>

definition page_step ::
  "('r \<Rightarrow> error + int) \<Rightarrow> int \<Rightarrow> int \<Rightarrow> 'r json \<Rightarrow> error + ('r list \<times> cursor_step)" where
  "page_step extract_timestamp limit earliest_ms payload =
     (if \<not> truthy payload then Inr ([], Stop)
      else if (case payload of JObj keys \<Rightarrow> ''code'' \<in> set keys | _ \<Rightarrow> False)
        then Inr ([], Stop)
      else
        (case payload of
           JArr (row0 # rest) \<Rightarrow>
             (case valid_rows extract_timestamp earliest_ms (row0 # rest) of
                Inl e \<Rightarrow> Inl e
              | Inr valid \<Rightarrow>
                  (case extract_timestamp row0 of
                     Inl e \<Rightarrow> Inl e
                   | Inr first_ts \<Rightarrow>
                       if int (length (row0 # rest)) = limit \<and> first_ts > earliest_ms
                       then Inr (valid, Continue (first_ts - 1))
                       else Inr (valid, Stop)))
         | _ \<Rightarrow> Inr ([], Stop)))"

text \<open>
  The \<open>while True\<close> loop of \<open>paginate_fetch\<close>.  The fetcher \<open>_get\<close> is the parameter
  \<open>fetch\<close>: called in a state \<open>s\<close> of the outside world with the path and the
  parameters, it returns a payload or raises, and leaves a new state.  An exception of
  the fetcher or of \<open>extract_timestamp\<close> leaves the function.  The loop may run forever:
  \<open>None\<close> means that it does not return.
\<close>

partial_function (option) paginate_loop ::
  "('s \<Rightarrow> string \<Rightarrow> params \<Rightarrow> (error + 'r json) \<times> 's) \<Rightarrow> string \<Rightarrow> string \<Rightarrow> int \<Rightarrow> int \<Rightarrow>
   (params \<Rightarrow> params) \<Rightarrow> ('r \<Rightarrow> error + int) \<Rightarrow> int option \<Rightarrow> 'r list \<Rightarrow> 's \<Rightarrow>
   ((error + 'r list) \<times> 's) option"
where
  "paginate_loop fetch path symbol limit earliest_ms build_params extract_timestamp
       end_time all_rows s =
    (case fetch s path (build_params (request_params symbol limit end_time)) of
       (Inl e, s') \<Rightarrow> Some (Inl e, s')
     | (Inr payload, s') \<Rightarrow>
         (case page_step extract_timestamp limit earliest_ms payload of
            Inl e \<Rightarrow> Some (Inl e, s')
          | Inr (valid, Stop) \<Rightarrow> Some (Inr (all_rows @ valid), s')
          | Inr (valid, Continue c) \<Rightarrow>
              paginate_loop fetch path symbol limit earliest_ms build_params extract_timestamp
                (Some c) (all_rows @ valid) s'))"

declare paginate_loop.simps [code]

text \<open>
  The de-duplication: \<open>unique_map[extract_timestamp(row)] = row\<close> for every row in order.
  The dict is an association list; a later row with the same timestamp replaces the
  earlier one.
\<close>

fun build_unique_map ::
  "('r \<Rightarrow> error + int) \<Rightarrow> 'r list \<Rightarrow> (int \<times> 'r) list \<Rightarrow> error + (int \<times> 'r) list" where
  "build_unique_map extract_timestamp [] unique_map = Inr unique_map"
| "build_unique_map extract_timestamp (row # rows) unique_map =
     (case extract_timestamp row of
        Inl e \<Rightarrow> Inl e
      | Inr t \<Rightarrow> build_unique_map extract_timestamp rows (AList.update t row unique_map))"

text \<open>\<open>[unique_map[key] for key in keys]\<close>; a missing key raises \<open>KeyError\<close>.\<close>

fun lookup_all :: "(int \<times> 'r) list \<Rightarrow> int list \<Rightarrow> error + 'r list" where
  "lookup_all unique_map [] = Inr []"
| "lookup_all unique_map (key # keys) =
     (case map_of unique_map key of
        None \<Rightarrow> Inl KeyError
      | Some row \<Rightarrow>
          (case lookup_all unique_map keys of
             Inl e \<Rightarrow> Inl e
           | Inr rows \<Rightarrow> Inr (row # rows)))"

text \<open>The last three lines of \<open>paginate_fetch\<close>, from \<open>all_rows\<close> to \<open>ordered\<close>.\<close>

definition unique_ordered :: "('r \<Rightarrow> error + int) \<Rightarrow> 'r list \<Rightarrow> error + 'r list" where
  "unique_ordered extract_timestamp all_rows =
     (case build_unique_map extract_timestamp all_rows [] of
        Inl e \<Rightarrow> Inl e
      | Inr unique_map \<Rightarrow> lookup_all unique_map (sort (map fst unique_map)))"

text \<open>\<open>paginate_fetch\<close>: the loop from \<open>end_time = None\<close> and no rows, then the de-duplication.\<close>

definition paginate_fetch ::
  "('s \<Rightarrow> string \<Rightarrow> params \<Rightarrow> (error + 'r json) \<times> 's) \<Rightarrow> string \<Rightarrow> string \<Rightarrow> int \<Rightarrow> int \<Rightarrow>
   (params \<Rightarrow> params) \<Rightarrow> ('r \<Rightarrow> error + int) \<Rightarrow> 's \<Rightarrow> ((error + 'r list) \<times> 's) option" where
  "paginate_fetch fetch path symbol limit earliest_ms build_params extract_timestamp s =
     (case paginate_loop fetch path symbol limit earliest_ms build_params extract_timestamp
             None [] s of
        None \<Rightarrow> None
      | Some (Inl e, s') \<Rightarrow> Some (Inl e, s')
      | Some (Inr all_rows, s') \<Rightarrow> Some (unique_ordered extract_timestamp all_rows, s'))"

text \<open>
  The last step of the candle adapters \<open>fetch_klines\<close> and \<open>fetch_index_like\<close>,
  \<open>frame[frame["open_time"] >= earliest_ms]\<close>, on the rows of a table whose \<open>open_time\<close>
  column holds integers.
\<close>

definition refilter :: "('row \<Rightarrow> int) \<Rightarrow> int \<Rightarrow> 'row list \<Rightarrow> 'row list" where
  "refilter open_time earliest_ms table =
     filter (\<lambda>row. open_time row \<ge> earliest_ms) table"

section \<open>The collection driver\<close>



























section \<open>Predicates and test doubles of the statements\<close>

text \<open>A network event that is a 429 or 418 response with the header \<open>Retry-After: 3\<close>.\<close>

definition throttled :: "'r net_event \<Rightarrow> bool" where
  "throttled ev =
     (case ev of
        Failed \<Rightarrow> False
      | Responded r \<Rightarrow>
          (status_code r = 429 \<or> status_code r = 418) \<and> retry_after r = Some ''3'')"

text \<open>A server that answers every request with the same status and \<open>Retry-After\<close> header.\<close>

definition always :: "int \<Rightarrow> string option \<Rightarrow> nat \<Rightarrow> unit net_event" where
  "always st ra k =
     Responded \<lparr>status_code = st, retry_after = ra, json_body = Inl JSONDecodeError\<rparr>"

text \<open>A \<open>float\<close> that reads the string \<open>3\<close> and rejects everything else.\<close>

definition float_3 :: "string \<Rightarrow> error + real" where
  "float_3 s = (if s = ''3'' then Inr 3 else Inl ValueError)"

text \<open>
  The timestamp extractor of the candle adapters and of the tests, \<open>int(row[0])\<close>, on rows
  that are lists of integers: an empty row raises \<open>IndexError\<close>.
\<close>

definition first_cell :: "int list \<Rightarrow> error + int" where
  "first_cell row = (case row of [] \<Rightarrow> Inl IndexError | x # _ \<Rightarrow> Inr x)"

text \<open>
  A stubbed fetcher: it returns the queued payloads one per call and records the
  parameters of every call; called on an empty queue it raises \<open>StopIteration\<close>.
\<close>

definition stub_fetch ::
  "'r json list \<times> params list \<Rightarrow> string \<Rightarrow> params \<Rightarrow>
   (error + 'r json) \<times> ('r json list \<times> params list)" where
  "stub_fetch s path ps =
     (case fst s of
        [] \<Rightarrow> (Inl StopIteration, ([], snd s @ [ps]))
      | payload # queue \<Rightarrow> (Inr payload, (queue, snd s @ [ps])))"

text \<open>A fetcher that returns the same payload on every call.\<close>

definition same_page_fetch :: "'r json \<Rightarrow> unit \<Rightarrow> string \<Rightarrow> params \<Rightarrow> (error + 'r json) \<times> unit" where
  "same_page_fetch payload s path ps = (Inr payload, ())"

text \<open>
  A fetcher that honours the cursor: asked with \<open>endTime = c\<close> it returns the two rows
  with timestamps \<open>c - 1\<close> and \<open>c\<close>; asked without a cursor, those with 100 and 101.
\<close>

definition cursor_fetch :: "unit \<Rightarrow> string \<Rightarrow> params \<Rightarrow> (error + int list json) \<times> unit" where
  "cursor_fetch s path ps =
     (case map_of ps ''endTime'' of
        Some (PInt c) \<Rightarrow> (Inr (JArr [[c - 1], [c]]), ())
      | _ \<Rightarrow> (Inr (JArr [[100], [101]]), ()))"

text \<open>The last row of \<open>rows\<close> whose extracted timestamp is \<open>t\<close>, if there is one.\<close>

definition last_with :: "('r \<Rightarrow> error + int) \<Rightarrow> int \<Rightarrow> 'r list \<Rightarrow> 'r option" where
  "last_with extract_timestamp t rows =
     (case filter (\<lambda>row. extract_timestamp row = Inr t) rows of
        [] \<Rightarrow> None
      | row # others \<Rightarrow> Some (last (row # others)))"

text \<open>
  The fetcher honours the cursor of \<open>paginate_fetch\<close>: whenever the request that the loop
  builds for a cursor \<open>c\<close> is answered with a list, no row of the list has a timestamp
  above \<open>c\<close>.
\<close>

definition cursor_bounded ::
  "('s \<Rightarrow> string \<Rightarrow> params \<Rightarrow> (error + 'r json) \<times> 's) \<Rightarrow> string \<Rightarrow> (params \<Rightarrow> params) \<Rightarrow>
   string \<Rightarrow> int \<Rightarrow> ('r \<Rightarrow> error + int) \<Rightarrow> bool" where
  "cursor_bounded fetch path build_params symbol limit extract_timestamp =
     (\<forall>s c page s'.
        fetch s path (build_params (request_params symbol limit (Some c))) = (Inr (JArr page), s')
        \<longrightarrow> (\<forall>row\<in>set page. \<forall>t. extract_timestamp row = Inr t \<longrightarrow> t \<le> c))"














section \<open>Lemmas about the fetcher\<close>

lemma get_loop_400:
  assumes "net (attempts0 + 1) = Responded response" "status_code response = 400"
  shows "get_loop net jit pyfloat attempts0 backoff trace = Some (Inr JNull, trace @ [Get])"
  using assms by (subst get_loop.simps) (simp add: Let_def)

lemma get_loop_throttled:
  assumes "net (attempts0 + 1) = Responded response"
    and "status_code response = 429 \<or> status_code response = 418"
    and "retry_after response = Some ''3''"
    and "pyfloat ''3'' = Inr 3"
    and "0 \<le> jit (attempts0 + 1)"
    and "attempts0 < MAX_RETRIES"
  shows "get_loop net jit pyfloat attempts0 backoff trace =
         get_loop net jit pyfloat (attempts0 + 1) (min (backoff * 2) 60)
           (trace @ [Get, Sleep (3 + jit (attempts0 + 1))])"
  using assms by (subst get_loop.simps) (auto simp add: Let_def sleep_def jitter_delay_def)

lemma get_loop_exhausted:
  assumes "net (attempts0 + 1) = Responded response"
    and "status_code response = 429 \<or> status_code response = 418"
    and "MAX_RETRIES \<le> attempts0"
  shows "get_loop net jit pyfloat attempts0 backoff trace = Some (Inl RuntimeError, trace @ [Get])"
  using assms by (subst get_loop.simps) (auto simp add: Let_def)

lemma get_all_throttled:
  assumes net: "\<And>k. throttled (net k)"
    and pf: "pyfloat ''3'' = Inr 3"
    and jit: "\<And>k. 0 \<le> jit k"
  shows "get net jit pyfloat = Some (Inl RuntimeError,
     [Get, Sleep (3 + jit 1), Get, Sleep (3 + jit 2), Get, Sleep (3 + jit 3), Get,
      Sleep (3 + jit 4), Get, Sleep (3 + jit 5), Get])"
proof -
  have step: "get_loop net jit pyfloat n b tr = get_loop net jit pyfloat m b' tr'"
    if "n < MAX_RETRIES" "m = n + 1" "b' = min (b * 2) 60" "tr' = tr @ [Get, Sleep (3 + jit m)]"
    for n m b b' tr tr'
  proof -
    from net[of "n + 1"] obtain r where r: "net (n + 1) = Responded r"
      "status_code r = 429 \<or> status_code r = 418" "retry_after r = Some ''3''"
      by (auto simp: throttled_def split: net_event.splits)
    show ?thesis
      using get_loop_throttled[of net n r pyfloat jit b tr] r pf jit[of "n + 1"] that by blast
  qed
  have final: "get_loop net jit pyfloat 5 b tr = Some (Inl RuntimeError, tr @ [Get])" for b tr
  proof -
    from net[of "5 + 1"] obtain r where r: "net (5 + 1) = Responded r"
      "status_code r = 429 \<or> status_code r = 418"
      by (auto simp: throttled_def split: net_event.splits)
    show ?thesis
      using get_loop_exhausted[of net 5 r jit pyfloat b tr] r by (simp add: MAX_RETRIES_def)
  qed
  have "get net jit pyfloat = get_loop net jit pyfloat 0 5 []"
    by (simp add: get_def)
  also have "\<dots> = get_loop net jit pyfloat 1 10 [Get, Sleep (3 + jit 1)]"
    by (rule step) (simp_all add: MAX_RETRIES_def)
  also have "\<dots> = get_loop net jit pyfloat 2 20 [Get, Sleep (3 + jit 1), Get, Sleep (3 + jit 2)]"
    by (rule step) (simp_all add: MAX_RETRIES_def)
  also have "\<dots> = get_loop net jit pyfloat 3 40
      [Get, Sleep (3 + jit 1), Get, Sleep (3 + jit 2), Get, Sleep (3 + jit 3)]"
    by (rule step) (simp_all add: MAX_RETRIES_def)
  also have "\<dots> = get_loop net jit pyfloat 4 60
      [Get, Sleep (3 + jit 1), Get, Sleep (3 + jit 2), Get, Sleep (3 + jit 3), Get,
       Sleep (3 + jit 4)]"
    by (rule step) (simp_all add: MAX_RETRIES_def)
  also have "\<dots> = get_loop net jit pyfloat 5 60
      [Get, Sleep (3 + jit 1), Get, Sleep (3 + jit 2), Get, Sleep (3 + jit 3), Get,
       Sleep (3 + jit 4), Get, Sleep (3 + jit 5)]"
    by (rule step) (simp_all add: MAX_RETRIES_def)
  also have "\<dots> = Some (Inl RuntimeError,
     [Get, Sleep (3 + jit 1), Get, Sleep (3 + jit 2), Get, Sleep (3 + jit 3), Get,
      Sleep (3 + jit 4), Get, Sleep (3 + jit 5)] @ [Get])"
    by (rule final)
  finally show ?thesis by simp
qed

lemma get_loop_passes:
  assumes "net (attempts0 + 1) = Responded response"
    and "status_code response \<notin> {200, 429, 418, 400}"
    and "\<not> (400 \<le> status_code response \<and> status_code response < 600)"
  shows "get_loop net jit pyfloat attempts0 backoff trace =
         get_loop net jit pyfloat (attempts0 + 1) backoff (trace @ [Get])"
  using assms by (subst get_loop.simps) (auto simp add: Let_def raise_for_status_def)

lemma get_loop_http_error:
  assumes "net (attempts0 + 1) = Responded response"
    and "status_code response \<notin> {200, 429, 418, 400}"
    and "400 \<le> status_code response \<and> status_code response < 600"
  shows "get_loop net jit pyfloat attempts0 backoff trace =
         Some (Inl (HTTPError (status_code response)), trace @ [Get])"
  using assms by (subst get_loop.simps) (auto simp add: Let_def raise_for_status_def)

text \<open>
  A server that keeps answering 304 keeps the loop running: no unfolding of the loop
  reaches a result.
\<close>

lemma get_loop_diverges:
  assumes "get_loop net jit pyfloat n b tr = Some y"
  shows "\<not> (\<forall>k. \<exists>r. net k = Responded r \<and> status_code r = 304)"
  using assms
proof (induction rule: get_loop.raw_induct[rotated 1, consumes 1])
  case (1 get_loop' net jit pyfloat attempts0 backoff trace0 y)
  show ?case
  proof
    assume all: "\<forall>k. \<exists>r. net k = Responded r \<and> status_code r = 304"
    then obtain r where r: "net (attempts0 + 1) = Responded r" "status_code r = 304"
      by blast
    from "1.hyps" r
    have "get_loop' net jit pyfloat (attempts0 + 1) backoff (trace0 @ [Get]) = Some y"
      by (simp add: Let_def raise_for_status_def)
    from "1.IH"[OF this] all show False by blast
  qed
qed

section \<open>Lemmas about the pagination engine\<close>

lemma valid_rows_Inr:
  "valid_rows ts e page = Inr v \<Longrightarrow>
     (\<forall>r\<in>set page. \<exists>t. ts r = Inr t) \<and> v = filter (\<lambda>r. \<exists>t. ts r = Inr t \<and> e \<le> t) page"
  by (induction page arbitrary: v) (auto split: sum.splits if_splits)

lemma valid_rows_ge:
  assumes "valid_rows ts e page = Inr v" "r \<in> set v"
  shows "\<exists>t. ts r = Inr t \<and> e \<le> t"
  using valid_rows_Inr[OF assms(1)] assms(2) by auto

lemma page_step_JArr:
  "page_step ts limit e (JArr (row0 # rest)) =
     (case valid_rows ts e (row0 # rest) of
        Inl err \<Rightarrow> Inl err
      | Inr valid \<Rightarrow>
          (case ts row0 of
             Inl err \<Rightarrow> Inl err
           | Inr t \<Rightarrow>
               Inr (valid, if int (length (row0 # rest)) = limit \<and> t > e
                           then Continue (t - 1) else Stop)))"
  by (simp add: page_step_def del: valid_rows.simps split: sum.splits)

lemma page_step_other:
  assumes "\<nexists>row0 rest. payload = JArr (row0 # rest)"
  shows "page_step ts limit e payload = Inr ([], Stop)"
  using assms by (cases payload) (auto simp: page_step_def split: list.splits)

lemma page_step_cases:
  assumes "page_step ts limit e payload = Inr (v, st)"
  shows "(v = [] \<and> st = Stop) \<or>
         (\<exists>row0 rest t. payload = JArr (row0 # rest) \<and> valid_rows ts e (row0 # rest) = Inr v \<and>
            ts row0 = Inr t \<and>
            st = (if int (length (row0 # rest)) = limit \<and> t > e then Continue (t - 1) else Stop))"
proof (cases "\<exists>row0 rest. payload = JArr (row0 # rest)")
  case False
  from page_step_other[OF this] assms show ?thesis by simp
next
  case True
  then obtain row0 rest where p: "payload = JArr (row0 # rest)" by blast
  from assms show ?thesis
    unfolding p page_step_JArr by (auto simp del: valid_rows.simps split: sum.splits)
qed

lemma page_step_ge:
  assumes "page_step ts limit e payload = Inr (v, st)" "r \<in> set v"
  shows "\<exists>t. ts r = Inr t \<and> e \<le> t"
  using page_step_cases[OF assms(1)] assms(2) valid_rows_ge by fastforce

lemma page_step_Continue:
  assumes "page_step ts limit e payload = Inr (v, Continue c)"
  shows "\<exists>row0 rest t. payload = JArr (row0 # rest) \<and> ts row0 = Inr t \<and> e < t \<and> c = t - 1 \<and>
           int (length (row0 # rest)) = limit"
  using page_step_cases[OF assms] by (auto split: if_splits)

text \<open>The rows accumulated by the loop are all at or above the earliest bound.\<close>

lemma paginate_loop_ge_aux:
  assumes "paginate_loop fetch path symbol limit e bp ts end_time acc s = Some y"
  shows "\<forall>out s'. y = (Inr out, s') \<longrightarrow> (\<forall>r\<in>set acc. \<exists>t. ts r = Inr t \<and> e \<le> t) \<longrightarrow>
           (\<forall>r\<in>set out. \<exists>t. ts r = Inr t \<and> e \<le> t)"
  using assms
proof (induction rule: paginate_loop.raw_induct[rotated 1, consumes 1])
  case (1 loop fetch path symbol limit e bp ts end_time acc s y)
  show ?case
  proof (intro allI impI)
    fix out s'
    assume y: "y = (Inr out, s')"
    assume acc: "\<forall>r\<in>set acc. \<exists>t. ts r = Inr t \<and> e \<le> t"
    obtain res s1 where f: "fetch s path (bp (request_params symbol limit end_time)) = (res, s1)"
      by (cases "fetch s path (bp (request_params symbol limit end_time))")
    from "1.hyps" f y obtain payload where res: "res = Inr payload"
      by (cases res) auto
    from "1.hyps" f res y obtain v st where ps: "page_step ts limit e payload = Inr (v, st)"
      by (cases "page_step ts limit e payload") auto
    have acc': "\<forall>r\<in>set (acc @ v). \<exists>t. ts r = Inr t \<and> e \<le> t"
      using acc page_step_ge[OF ps] by auto
    show "\<forall>r\<in>set out. \<exists>t. ts r = Inr t \<and> e \<le> t"
    proof (cases st)
      case Stop
      with "1.hyps" f res ps y have "out = acc @ v" by simp
      with acc' show ?thesis by simp
    next
      case (Continue c)
      with "1.hyps" f res ps y
      have "loop fetch path symbol limit e bp ts (Some c) (acc @ v) s1 = Some y"
        by simp
      from "1.IH"[OF this] acc' y show ?thesis by blast
    qed
  qed
qed

lemma paginate_loop_ge:
  assumes "paginate_loop fetch path symbol limit e bp ts end_time acc s = Some (Inr out, s')"
    and "\<forall>r\<in>set acc. \<exists>t. ts r = Inr t \<and> e \<le> t"
  shows "\<forall>r\<in>set out. \<exists>t. ts r = Inr t \<and> e \<le> t"
  using paginate_loop_ge_aux[OF assms(1)] assms(2) by blast

lemma paginate_fetch_Inr:
  assumes "paginate_fetch fetch path symbol limit e bp ts s = Some (Inr out, s')"
  shows "\<exists>all_rows. paginate_loop fetch path symbol limit e bp ts None [] s = Some (Inr all_rows, s')
           \<and> unique_ordered ts all_rows = Inr out"
  using assms by (auto simp: paginate_fetch_def split: option.splits sum.splits prod.splits)

subsection \<open>De-duplication and ordering\<close>

lemma last_with_Cons:
  "last_with ts t (row # page) =
     (case last_with ts t page of
        Some r \<Rightarrow> Some r
      | None \<Rightarrow> if ts row = Inr t then Some row else None)"
  by (auto simp: last_with_def split: list.splits)

lemma last_with_Some:
  assumes "last_with ts t page = Some r"
  shows "ts r = Inr t \<and> r \<in> set page"
proof -
  from assms have ne: "filter (\<lambda>row. ts row = Inr t) page \<noteq> []"
    and r: "r = last (filter (\<lambda>row. ts row = Inr t) page)"
    by (auto simp: last_with_def split: list.splits)
  from last_in_set[OF ne] r have "r \<in> set (filter (\<lambda>row. ts row = Inr t) page)" by simp
  then show ?thesis by simp
qed

lemma last_with_None:
  "last_with ts t page = None \<longleftrightarrow> (\<forall>r\<in>set page. ts r \<noteq> Inr t)"
proof -
  have "last_with ts t page = None \<longleftrightarrow> filter (\<lambda>row. ts row = Inr t) page = []"
    by (simp add: last_with_def split: list.splits)
  then show ?thesis by (simp add: filter_empty_conv)
qed

lemma build_unique_map_distinct:
  "build_unique_map ts page um = Inr um' \<Longrightarrow> distinct (map fst um) \<Longrightarrow> distinct (map fst um')"
  by (induction page arbitrary: um) (auto split: sum.splits simp: distinct_update)

lemma build_unique_map_extracts:
  "build_unique_map ts page um = Inr um' \<Longrightarrow> \<forall>r\<in>set page. \<exists>t. ts r = Inr t"
  by (induction page arbitrary: um) (auto split: sum.splits)

lemma build_unique_map_lookup:
  "build_unique_map ts page um = Inr um' \<Longrightarrow>
     map_of um' t = (case last_with ts t page of Some r \<Rightarrow> Some r | None \<Rightarrow> map_of um t)"
proof (induction page arbitrary: um)
  case Nil
  then show ?case by (simp add: last_with_def)
next
  case (Cons row page)
  from Cons.prems obtain t0 where t0: "ts row = Inr t0"
    and rest: "build_unique_map ts page (AList.update t0 row um) = Inr um'"
    by (auto split: sum.splits)
  from Cons.IH[OF rest] show ?case
    by (auto simp: last_with_Cons t0 update_conv' split: option.splits)
qed

lemma lookup_all_Inr:
  "lookup_all um keys = Inr out \<Longrightarrow> map Some out = map (map_of um) keys"
  by (induction keys arbitrary: out) (auto split: option.splits sum.splits)

lemma unique_ordered_Inr:
  assumes "unique_ordered ts all_rows = Inr out"
  shows "\<exists>tss. map ts out = map Inr tss \<and> sorted_wrt (<) tss \<and>
           set (map Inr tss) = set (map ts all_rows) \<and>
           map Some out = map (\<lambda>t. last_with ts t all_rows) tss"
proof -
  from assms obtain um where um: "build_unique_map ts all_rows [] = Inr um"
    and out: "lookup_all um (sort (map fst um)) = Inr out"
    by (auto simp: unique_ordered_def split: sum.splits)
  define tss where "tss = sort (map fst um)"
  have look: "map_of um t = last_with ts t all_rows" for t
    using build_unique_map_lookup[OF um, of t] by (simp split: option.splits)
  have some: "map Some out = map (\<lambda>t. last_with ts t all_rows) tss"
    using lookup_all_Inr[OF out] by (simp add: tss_def look)
  have "distinct (map fst um)"
    using build_unique_map_distinct[OF um] by simp
  then have sorted: "sorted_wrt (<) tss"
    by (simp add: tss_def strict_sorted_iff)
  have len: "length out = length tss"
    using some by (metis length_map)
  have nth: "ts (out ! i) = Inr (tss ! i)" if "i < length out" for i
  proof -
    from some that len have "Some (out ! i) = last_with ts (tss ! i) all_rows"
      by (metis nth_map)
    then show ?thesis using last_with_Some by metis
  qed
  have ts: "map ts out = map Inr tss"
    by (rule nth_equalityI) (simp_all add: len nth)
  have "set tss = fst ` set um"
    by (simp add: tss_def)
  also have "\<dots> = dom (map_of um)"
    by (simp add: dom_map_of_conv_image_fst)
  also have "\<dots> = {t. \<exists>r\<in>set all_rows. ts r = Inr t}"
    using last_with_None[of ts _ all_rows] by (auto simp: dom_def look)
  finally have keys: "set tss = {t. \<exists>r\<in>set all_rows. ts r = Inr t}" .
  have "Inr ` set tss = ts ` set all_rows"
  proof (intro set_eqI iffI)
    fix x :: "error + int" assume "x \<in> Inr ` set tss"
    then obtain t where "x = Inr t" "t \<in> set tss" by blast
    with keys obtain r where "r \<in> set all_rows" "ts r = Inr t" by blast
    with \<open>x = Inr t\<close> show "x \<in> ts ` set all_rows" by force
  next
    fix x :: "error + int" assume "x \<in> ts ` set all_rows"
    then obtain r where r: "r \<in> set all_rows" "x = ts r" by blast
    with build_unique_map_extracts[OF um] obtain t where "ts r = Inr t" by blast
    with r keys show "x \<in> Inr ` set tss" by auto
  qed
  then have "set (map Inr tss) = set (map ts all_rows)" by simp
  with ts sorted some show ?thesis by blast
qed

lemma unique_ordered_subset:
  assumes "unique_ordered ts all_rows = Inr out"
  shows "set out \<subseteq> set all_rows"
proof -
  from unique_ordered_Inr[OF assms] obtain tss
    where some: "map Some out = map (\<lambda>t. last_with ts t all_rows) tss" by blast
  show ?thesis
  proof
    fix r assume "r \<in> set out"
    then have "Some r \<in> set (map Some out)" by simp
    with some obtain t where "last_with ts t all_rows = Some r" by auto
    with last_with_Some show "r \<in> set all_rows" by metis
  qed
qed

subsection \<open>Termination under a fetcher that honours the cursor\<close>

lemma paginate_loop_terminates_cursor:
  assumes bound: "cursor_bounded fetch path bp symbol limit ts"
  shows "\<exists>res. paginate_loop fetch path symbol limit e bp ts (Some c) acc s = Some res"
proof (induction "nat (c - e)" arbitrary: c acc s rule: less_induct)
  case less
  obtain res s1 where f: "fetch s path (bp (request_params symbol limit (Some c))) = (res, s1)"
    by (cases "fetch s path (bp (request_params symbol limit (Some c)))")
  show ?case
  proof (cases res)
    case (Inl err)
    with f show ?thesis by (subst paginate_loop.simps) simp
  next
    case (Inr payload)
    show ?thesis
    proof (cases "page_step ts limit e payload")
      case (Inl err)
      with f Inr show ?thesis by (subst paginate_loop.simps) simp
    next
      case ps: (Inr vs)
      obtain v st where vs: "vs = (v, st)" by (cases vs)
      show ?thesis
      proof (cases st)
        case Stop
        with f Inr ps vs show ?thesis by (subst paginate_loop.simps) simp
      next
        case (Continue c')
        from page_step_Continue[of ts limit e payload v c'] ps vs Continue
        obtain row0 rest t where p: "payload = JArr (row0 # rest)" "ts row0 = Inr t" "e < t"
          "c' = t - 1" by auto
        from bound f Inr p have "t \<le> c" unfolding cursor_bounded_def by fastforce
        with p have "nat (c' - e) < nat (c - e)" by simp
        from less[OF this, of "acc @ v" s1] f Inr ps vs Continue
        show ?thesis by (subst paginate_loop.simps) simp
      qed
    qed
  qed
qed

lemma paginate_loop_terminates:
  assumes bound: "cursor_bounded fetch path bp symbol limit ts"
  shows "\<exists>res. paginate_loop fetch path symbol limit e bp ts end_time acc s = Some res"
proof (cases end_time)
  case (Some c)
  with paginate_loop_terminates_cursor[OF bound] show ?thesis by simp
next
  case None
  obtain res s1 where f: "fetch s path (bp (request_params symbol limit None)) = (res, s1)"
    by (cases "fetch s path (bp (request_params symbol limit None))")
  show ?thesis
  proof (cases res)
    case (Inl err)
    with f None show ?thesis by (subst paginate_loop.simps) simp
  next
    case (Inr payload)
    show ?thesis
    proof (cases "page_step ts limit e payload")
      case (Inl err)
      with f Inr None show ?thesis by (subst paginate_loop.simps) simp
    next
      case ps: (Inr vs)
      obtain v st where vs: "vs = (v, st)" by (cases vs)
      show ?thesis
      proof (cases st)
        case Stop
        with f Inr ps vs None show ?thesis by (subst paginate_loop.simps) simp
      next
        case (Continue c')
        from paginate_loop_terminates_cursor[OF bound, of e c' "acc @ v" s1] f Inr ps vs Continue None
        show ?thesis by (subst paginate_loop.simps) simp
      qed
    qed
  qed
qed

lemma paginate_fetch_returns:
  assumes bound: "cursor_bounded fetch path bp symbol limit ts"
  shows "\<exists>res. paginate_fetch fetch path symbol limit e bp ts s = Some res"
proof -
  from paginate_loop_terminates[OF bound, of e None "[]" s]
  obtain res where "paginate_loop fetch path symbol limit e bp ts None [] s = Some res" by blast
  then show ?thesis
    by (cases res) (auto simp: paginate_fetch_def split: sum.splits)
qed

lemma same_page_diverges_aux:
  assumes "paginate_loop fetch path symbol limit e bp ts end_time acc s = Some y"
  shows "\<not> (fetch = same_page_fetch (JArr [[100], [200]]) \<and> limit = 2 \<and> e = 0 \<and> ts = first_cell)"
  using assms
proof (induction rule: paginate_loop.raw_induct[rotated 1, consumes 1])
  case (1 loop fetch path symbol limit e bp ts end_time acc s y)
  show ?case
  proof
    assume a: "fetch = same_page_fetch (JArr [[100], [200]]) \<and> limit = 2 \<and> e = 0 \<and> ts = first_cell"
    with "1.hyps" have "loop fetch path symbol limit e bp ts (Some 99) (acc @ [[100], [200]]) () = Some y"
      by (simp add: same_page_fetch_def page_step_def first_cell_def)
    from "1.IH"[OF this] a show False by blast
  qed
qed

lemma same_page_diverges:
  "paginate_fetch (same_page_fetch (JArr [[100], [200]])) path symbol 2 0 bp first_cell () = None"
proof (cases "paginate_loop (same_page_fetch (JArr [[100], [200]])) path symbol 2 0 bp first_cell None [] ()")
  case None
  then show ?thesis by (simp add: paginate_fetch_def)
next
  case (Some y)
  from same_page_diverges_aux[OF this] show ?thesis by simp
qed

lemma same_page_unbounded:
  "\<not> cursor_bounded (same_page_fetch (JArr [[100], [200]])) path bp symbol limit first_cell"
  by (auto simp: cursor_bounded_def same_page_fetch_def first_cell_def intro!: exI[of _ 0])

lemma cursor_fetch_bounded:
  "cursor_bounded cursor_fetch path id symbol limit first_cell"
  by (auto simp: cursor_bounded_def cursor_fetch_def request_params_def first_cell_def)

section \<open>Lemmas about the driver\<close>





















section \<open>The claims\<close>

subsection \<open>C1: the continuation guard\<close>

text \<open>
  Claim C1, as amended.  After a page has been processed (a non-empty list on which
  every timestamp extraction succeeds), the loop continues with the cursor
  \<open>first_ts - 1\<close> if and only if the number of rows of the page equals \<open>limit\<close> and the
  timestamp \<open>first_ts\<close> of its first, unfiltered row is strictly greater than
  \<open>earliest_ms\<close>; in every other case it stops.  The next request then carries
  \<open>endTime = first_ts - 1\<close>.  A page whose filtered subset is empty always stops: its
  first row is below \<open>earliest_ms\<close>, so the guard fails.
\<close>

theorem page_step_continuation_guard:
  assumes "valid_rows ts earliest_ms (row0 # rest) = Inr valid"
    and "ts row0 = Inr first_ts"
  shows "page_step ts limit earliest_ms (JArr (row0 # rest)) =
           Inr (valid,
                if int (length (row0 # rest)) = limit \<and> earliest_ms < first_ts
                then Continue (first_ts - 1) else Stop)
       \<and> (valid = [] \<longrightarrow> page_step ts limit earliest_ms (JArr (row0 # rest)) = Inr ([], Stop))
       \<and> (fetch s path (bp (request_params symbol limit end_time)) = (Inr (JArr (row0 # rest)), s')
            \<longrightarrow> paginate_loop fetch path symbol limit earliest_ms bp ts end_time acc s =
                 (if int (length (row0 # rest)) = limit \<and> earliest_ms < first_ts
                  then paginate_loop fetch path symbol limit earliest_ms bp ts
                         (Some (first_ts - 1)) (acc @ valid) s'
                  else Some (Inr (acc @ valid), s')))
       \<and> request_params symbol limit (Some (first_ts - 1)) =
           [(''symbol'', PStr symbol), (''limit'', PInt limit), (''endTime'', PInt (first_ts - 1))]"
proof -
  have step: "page_step ts limit earliest_ms (JArr (row0 # rest)) =
           Inr (valid,
                if int (length (row0 # rest)) = limit \<and> earliest_ms < first_ts
                then Continue (first_ts - 1) else Stop)"
    unfolding page_step_JArr using assms by simp
  have filtered: "page_step ts limit earliest_ms (JArr (row0 # rest)) = Inr ([], Stop)"
    if "valid = []"
  proof -
    from valid_rows_Inr[OF assms(1)] that assms(2) have "\<not> earliest_ms \<le> first_ts"
      by (auto simp: filter_empty_conv)
    with step that show ?thesis by simp
  qed
  have loop: "paginate_loop fetch path symbol limit earliest_ms bp ts end_time acc s =
                 (if int (length (row0 # rest)) = limit \<and> earliest_ms < first_ts
                  then paginate_loop fetch path symbol limit earliest_ms bp ts
                         (Some (first_ts - 1)) (acc @ valid) s'
                  else Some (Inr (acc @ valid), s'))"
    if "fetch s path (bp (request_params symbol limit end_time)) = (Inr (JArr (row0 # rest)), s')"
    by (subst paginate_loop.simps) (simp add: that step)
  have req: "request_params symbol limit (Some (first_ts - 1)) =
           [(''symbol'', PStr symbol), (''limit'', PInt limit), (''endTime'', PInt (first_ts - 1))]"
    by (simp add: request_params_def)
  from step filtered loop req show ?thesis by blast
qed

theorem page_step_continuation_guard_witness:
  "page_step first_cell 2 0 (JArr [[100], [200]]) = Inr ([[100], [200]], Continue 99)
   \<and> page_step first_cell 2 0 (JArr [[50]]) = Inr ([[50]], Stop)"
proof -
  have a: "valid_rows first_cell 0 ([100] # [[200]]) = Inr [[100], [200]]"
    and b: "first_cell [100] = Inr 100"
    and c: "valid_rows first_cell 0 ([50] # []) = Inr [[50]]"
    and d: "first_cell [50] = Inr 50"
    by (simp_all add: first_cell_def)
  from page_step_continuation_guard[OF a b, where limit = 2, THEN conjunct1]
    page_step_continuation_guard[OF c d, where limit = 2, THEN conjunct1]
  show ?thesis by simp
qed

text \<open>
  The claim as stated fails: the page \<open>[[5], [6]]\<close> is full for \<open>limit = 2\<close> and its
  filtered subset for \<open>earliest_ms = 10\<close> is empty, yet the loop stops; the stubbed
  fetcher is called once and its second payload is never asked for.
\<close>

theorem full_page_below_bound_stops:
  "int (length [[5::int], [6]]) = 2
   \<and> valid_rows first_cell 10 [[5], [6]] = Inr []
   \<and> page_step first_cell 2 10 (JArr [[5], [6]]) = Inr ([], Stop)
   \<and> paginate_fetch stub_fetch ''/example'' ''BTCUSDT'' 2 10 id first_cell
        ([JArr [[5], [6]], JArr [[1]]], []) =
      Some (Inr [], ([JArr [[1]]], [[(''symbol'', PStr ''BTCUSDT''), (''limit'', PInt 2)]]))"
  by (simp add: paginate_fetch_def paginate_loop.simps stub_fetch_def first_cell_def
      request_params_def page_step_def unique_ordered_def)

subsection \<open>C2: the result is strictly ascending and free of duplicates\<close>

text \<open>
  Claim C2.  Whatever pages the fetcher returns, a list returned by \<open>paginate_fetch\<close> is
  strictly ascending in the extracted timestamp, so no two of its rows have the same
  timestamp; its timestamps are those of the accumulated rows, and for each timestamp
  it holds the last accumulated row with that timestamp.
\<close>

theorem paginate_fetch_sorted_unique:
  assumes "paginate_fetch fetch path symbol limit earliest_ms bp ts s = Some (Inr out, s')"
  shows "\<exists>all_rows tss.
           paginate_loop fetch path symbol limit earliest_ms bp ts None [] s =
             Some (Inr all_rows, s')
         \<and> map ts out = map Inr tss
         \<and> sorted_wrt (<) tss
         \<and> distinct tss
         \<and> set (map Inr tss) = set (map ts all_rows)
         \<and> map Some out = map (\<lambda>t. last_with ts t all_rows) tss"
proof -
  from paginate_fetch_Inr[OF assms] obtain all_rows
    where loop: "paginate_loop fetch path symbol limit earliest_ms bp ts None [] s =
                   Some (Inr all_rows, s')"
      and uo: "unique_ordered ts all_rows = Inr out"
    by blast
  from unique_ordered_Inr[OF uo] obtain tss
    where tss: "map ts out = map Inr tss" "sorted_wrt (<) tss"
      "set (map Inr tss) = set (map ts all_rows)"
      "map Some out = map (\<lambda>t. last_with ts t all_rows) tss"
    by blast
  from tss(2) have "distinct tss" by (simp add: strict_sorted_iff)
  with loop tss show ?thesis by blast
qed

theorem paginate_fetch_sorted_unique_witness:
  "\<exists>tss. map first_cell [[100, 2], [200, 1]] = map Inr tss \<and> sorted_wrt (<) tss \<and> distinct tss
      \<and> map Some [[100, 2], [200, 1]] =
          map (\<lambda>t. last_with first_cell t [[100, 1], [200, 1], [100, 2]]) tss"
proof -
  have run: "paginate_fetch stub_fetch ''/example'' ''BTCUSDT'' 2 0 id first_cell
        ([JArr [[100, 1], [200, 1]], JArr [[100, 2]]], []) =
      Some (Inr [[100, 2], [200, 1]],
            ([], [[(''symbol'', PStr ''BTCUSDT''), (''limit'', PInt 2)],
                  [(''symbol'', PStr ''BTCUSDT''), (''limit'', PInt 2), (''endTime'', PInt 99)]]))"
    by (simp add: paginate_fetch_def paginate_loop.simps stub_fetch_def first_cell_def
        request_params_def page_step_def unique_ordered_def)
  have loop: "paginate_loop stub_fetch ''/example'' ''BTCUSDT'' 2 0 id first_cell None []
        ([JArr [[100, 1], [200, 1]], JArr [[100, 2]]], []) =
      Some (Inr [[100, 1], [200, 1], [100, 2]],
            ([], [[(''symbol'', PStr ''BTCUSDT''), (''limit'', PInt 2)],
                  [(''symbol'', PStr ''BTCUSDT''), (''limit'', PInt 2), (''endTime'', PInt 99)]]))"
    by (simp add: paginate_loop.simps stub_fetch_def first_cell_def request_params_def
        page_step_def)
  from paginate_fetch_sorted_unique[OF run] obtain all_rows tss
    where l: "paginate_loop stub_fetch ''/example'' ''BTCUSDT'' 2 0 id first_cell None []
        ([JArr [[100, 1], [200, 1]], JArr [[100, 2]]], []) =
      Some (Inr all_rows,
            ([], [[(''symbol'', PStr ''BTCUSDT''), (''limit'', PInt 2)],
                  [(''symbol'', PStr ''BTCUSDT''), (''limit'', PInt 2), (''endTime'', PInt 99)]]))"
      and t: "map first_cell [[100, 2], [200, 1]] = map Inr tss" "sorted_wrt (<) tss"
        "distinct tss"
      and lw: "map Some [[100, 2], [200, 1]] = map (\<lambda>t. last_with first_cell t all_rows) tss"
    by blast
  from l loop have "all_rows = [[100, 1], [200, 1], [100, 2]]" by simp
  with t lw show ?thesis by blast
qed

subsection \<open>C3: no row below the earliest bound\<close>

text \<open>
  Claim C3.  Every row of a list returned by \<open>paginate_fetch\<close> has an extracted timestamp
  at or above \<open>earliest_ms\<close>: the rows that a page contributes are already filtered by
  that bound.  The candle adapters filter the assembled table by the same bound once
  more, which keeps only rows at or above it and, where the \<open>open_time\<close> column is the
  extracted timestamp, removes nothing.
\<close>

theorem paginate_fetch_lower_bound:
  fixes ts :: "'r \<Rightarrow> error + int"
  assumes "paginate_fetch fetch path symbol limit earliest_ms bp ts s = Some (Inr out, s')"
  shows "(\<forall>row\<in>set out. \<exists>t. ts row = Inr t \<and> earliest_ms \<le> t)
       \<and> (\<forall>payload valid st. page_step ts limit earliest_ms payload = Inr (valid, st) \<longrightarrow>
            (\<forall>row\<in>set valid. \<exists>t. ts row = Inr t \<and> earliest_ms \<le> t))
       \<and> (\<forall>open_time. \<forall>table :: 'r list. \<forall>row\<in>set (refilter open_time earliest_ms table).
            earliest_ms \<le> open_time row)
       \<and> (\<forall>open_time. (\<forall>row\<in>set out. ts row = Inr (open_time row)) \<longrightarrow>
            refilter open_time earliest_ms out = out)"
proof -
  from paginate_fetch_Inr[OF assms] obtain all_rows
    where loop: "paginate_loop fetch path symbol limit earliest_ms bp ts None [] s =
                   Some (Inr all_rows, s')"
      and uo: "unique_ordered ts all_rows = Inr out"
    by blast
  have "\<forall>row\<in>set all_rows. \<exists>t. ts row = Inr t \<and> earliest_ms \<le> t"
    by (rule paginate_loop_ge[OF loop]) simp
  with unique_ordered_subset[OF uo]
  have out: "\<forall>row\<in>set out. \<exists>t. ts row = Inr t \<and> earliest_ms \<le> t" by blast
  have page: "\<forall>payload valid st. page_step ts limit earliest_ms payload = Inr (valid, st) \<longrightarrow>
            (\<forall>row\<in>set valid. \<exists>t. ts row = Inr t \<and> earliest_ms \<le> t)"
    using page_step_ge by meson
  have again: "\<forall>open_time. \<forall>table :: 'r list.
            \<forall>row\<in>set (refilter open_time earliest_ms table). earliest_ms \<le> open_time row"
    by (simp add: refilter_def)
  have same: "refilter open_time earliest_ms out = out"
    if "\<forall>row\<in>set out. ts row = Inr (open_time row)" for open_time
  proof -
    from out that have "\<forall>row\<in>set out. earliest_ms \<le> open_time row" by fastforce
    then show ?thesis by (simp add: refilter_def)
  qed
  from out page again same show ?thesis by blast
qed

theorem paginate_fetch_lower_bound_witness:
  "(\<exists>t. first_cell [200] = Inr t \<and> 150 \<le> t) \<and> refilter hd 150 [[200]] = [[200]]"
proof -
  have run: "paginate_fetch stub_fetch ''/example'' ''BTCUSDT'' 2 150 id first_cell
        ([JArr [[100], [200]]], []) =
      Some (Inr [[200]], ([], [[(''symbol'', PStr ''BTCUSDT''), (''limit'', PInt 2)]]))"
    by (simp add: paginate_fetch_def paginate_loop.simps stub_fetch_def first_cell_def
        request_params_def page_step_def unique_ordered_def)
  from paginate_fetch_lower_bound[OF run]
  have bound: "\<forall>row\<in>set [[200]]. \<exists>t. first_cell row = Inr t \<and> 150 \<le> t"
    by (rule conjunct1)
  from paginate_fetch_lower_bound[OF run]
  have same: "\<forall>open_time. (\<forall>row\<in>set [[200]]. first_cell row = Inr (open_time row)) \<longrightarrow>
            refilter open_time 150 [[200]] = [[200]]"
    by simp
  from same have "refilter hd 150 [[200]] = [[200]]"
    by (simp add: first_cell_def)
  with bound show ?thesis by simp
qed

subsection \<open>C4: the two-page trace\<close>

text \<open>
  Claim C4.  With the fetcher stubbed to return first the full page with timestamps 100
  and 200 and then the partial page with timestamp 50, \<open>paginate_fetch\<close> with
  \<open>earliest_ms = 0\<close> and \<open>limit = 2\<close> calls the fetcher exactly twice, the second time
  with \<open>endTime = 99\<close>, and returns the rows 50, 100, 200 in this order.
\<close>

theorem paginate_fetch_two_pages:
  "paginate_fetch stub_fetch ''/example'' ''BTCUSDT'' 2 0 id first_cell
     ([JArr [[100], [200]], JArr [[50]]], []) =
   Some (Inr [[50], [100], [200]],
         ([], [[(''symbol'', PStr ''BTCUSDT''), (''limit'', PInt 2)],
               [(''symbol'', PStr ''BTCUSDT''), (''limit'', PInt 2), (''endTime'', PInt 99)]]))"
  by (simp add: paginate_fetch_def paginate_loop.simps stub_fetch_def first_cell_def
      request_params_def page_step_def unique_ordered_def)

subsection \<open>C5: rate limiting\<close>

text \<open>
  Claim C5.  Let \<open>float\<close> read the header value \<open>3\<close> as the number 3 and let every jitter
  lie in \<open>[0, 1)\<close>.  Then a 429 or 418 response with \<open>Retry-After: 3\<close> that arrives
  within the retry ceiling is followed by a sleep of 3 plus the jitter, which is at
  least 3 seconds, and by the next attempt; and when every attempt is answered so,
  \<open>_get\<close> makes six requests, sleeps five times and raises the rate-limit error on the
  sixth answer, the first attempt whose number exceeds \<open>MAX_RETRIES = 5\<close>.
\<close>

theorem get_rate_limited:
  assumes "pyfloat ''3'' = Inr 3"
    and "\<forall>k. 0 \<le> jit k \<and> jit k < 1"
  shows "(\<forall>attempts0 backoff trace response.
            attempts0 < MAX_RETRIES \<and> net (attempts0 + 1) = Responded response
              \<and> throttled (Responded response) \<longrightarrow>
            get_loop net jit pyfloat attempts0 backoff trace =
              get_loop net jit pyfloat (attempts0 + 1) (min (backoff * 2) 60)
                (trace @ [Get, Sleep (3 + jit (attempts0 + 1))])
            \<and> 3 \<le> 3 + jit (attempts0 + 1))
       \<and> ((\<forall>k. throttled (net k)) \<longrightarrow>
            get net jit pyfloat =
              Some (Inl RuntimeError,
                    [Get, Sleep (3 + jit 1), Get, Sleep (3 + jit 2), Get, Sleep (3 + jit 3),
                     Get, Sleep (3 + jit 4), Get, Sleep (3 + jit 5), Get]))
       \<and> MAX_RETRIES = 5"
proof -
  have jit: "0 \<le> jit k" for k using assms(2) by simp
  have one: "get_loop net jit pyfloat attempts0 backoff trace =
              get_loop net jit pyfloat (attempts0 + 1) (min (backoff * 2) 60)
                (trace @ [Get, Sleep (3 + jit (attempts0 + 1))])
            \<and> 3 \<le> 3 + jit (attempts0 + 1)"
    if "attempts0 < MAX_RETRIES \<and> net (attempts0 + 1) = Responded response
          \<and> throttled (Responded response)"
    for attempts0 backoff trace response
    using get_loop_throttled[of net attempts0 response pyfloat jit backoff trace]
      that assms(1) jit[of "attempts0 + 1"]
    by (simp add: throttled_def)
  have every: "get net jit pyfloat =
              Some (Inl RuntimeError,
                    [Get, Sleep (3 + jit 1), Get, Sleep (3 + jit 2), Get, Sleep (3 + jit 3),
                     Get, Sleep (3 + jit 4), Get, Sleep (3 + jit 5), Get])"
    if "\<forall>k. throttled (net k)"
    by (rule get_all_throttled) (simp_all add: that assms(1) jit)
  have ceiling: "MAX_RETRIES = 5" by (simp add: MAX_RETRIES_def)
  from one every ceiling show ?thesis by blast
qed

theorem get_rate_limited_witness:
  "get (always 429 (Some ''3'')) (\<lambda>k. 1 / 2) float_3 =
     Some (Inl RuntimeError,
           [Get, Sleep (7 / 2), Get, Sleep (7 / 2), Get, Sleep (7 / 2), Get, Sleep (7 / 2),
            Get, Sleep (7 / 2), Get])"
  using get_rate_limited[of float_3 "\<lambda>k. 1 / 2" "always 429 (Some ''3'')"]
  by (simp add: throttled_def always_def float_3_def)

subsection \<open>C6: a bad request\<close>

text \<open>
  Claim C6.  When an attempt, whatever its number, is answered with status 400, \<open>_get\<close>
  returns \<open>None\<close> at once: after the request of that attempt there is no sleep, no
  further request and no exception.
\<close>

theorem get_bad_request:
  assumes "net (attempts0 + 1) = Responded response"
    and "status_code response = 400"
  shows "get_loop net jit pyfloat attempts0 backoff trace = Some (Inr JNull, trace @ [Get])
       \<and> (attempts0 = 0 \<longrightarrow> get net jit pyfloat = Some (Inr JNull, [Get]))"
proof -
  have now: "get_loop net jit pyfloat attempts0 b tr = Some (Inr JNull, tr @ [Get])" for b tr
    using get_loop_400[of net attempts0 response jit pyfloat b tr] assms by simp
  show ?thesis
  proof (intro conjI impI)
    show "get_loop net jit pyfloat attempts0 backoff trace = Some (Inr JNull, trace @ [Get])"
      by (rule now)
  next
    assume "attempts0 = 0"
    with now[of 5 "[]"] show "get net jit pyfloat = Some (Inr JNull, [Get])"
      by (simp add: get_def)
  qed
qed

theorem get_bad_request_witness:
  "get (always 400 None) (\<lambda>k. 0) float_3 = Some (Inr JNull, [Get])
   \<and> get_loop (always 400 None) (\<lambda>k. 0) float_3 7 60 [Get, Sleep 5] =
       Some (Inr JNull, [Get, Sleep 5, Get])"
proof -
  let ?r = "\<lparr>status_code = 400, retry_after = None, json_body = Inl JSONDecodeError\<rparr>
              :: unit response"
  from get_bad_request[of "always 400 None" 0 ?r "\<lambda>k. 0" float_3 5 "[]"]
    get_bad_request[of "always 400 None" 7 ?r "\<lambda>k. 0" float_3 60 "[Get, Sleep 5]"]
  show ?thesis by (simp add: always_def)
qed

subsection \<open>C7: the other statuses\<close>

text \<open>
  Claim C7 fails on the code.  A status from 400 to 599 other than 400, 418 and 429
  raises at once, as for 500 below.  Any other status, such as 304, raises nothing:
  \<open>raise_for_status\<close> returns, the loop starts over without a sleep and without looking
  at the attempt counter, and against a server that keeps answering 304 \<open>_get\<close> never
  returns.
\<close>

theorem get_not_modified_never_returns:
  "get (always 304 None) jit pyfloat = None
   \<and> get (always 500 None) jit pyfloat = Some (Inl (HTTPError 500), [Get])"
proof -
  have "get (always 304 None) jit pyfloat = None"
  proof (cases "get (always 304 None) jit pyfloat")
    case None
    then show ?thesis .
  next
    case (Some y)
    then have "get_loop (always 304 None) jit pyfloat 0 5 [] = Some y"
      by (simp add: get_def)
    from get_loop_diverges[OF this] show ?thesis by (simp add: always_def)
  qed
  moreover have "get (always 500 None) jit pyfloat = Some (Inl (HTTPError 500), [Get])"
    unfolding get_def
    by (subst get_loop.simps) (simp add: always_def raise_for_status_def)
  ultimately show ?thesis by simp
qed

subsection \<open>C8: the outcome of a task\<close>




subsection \<open>C9: the exit status\<close>




subsection \<open>C10: termination of the pagination loop\<close>

text \<open>
  Claim C10.  If the fetcher honours the cursor (a page returned for a request with
  \<open>endTime = c\<close> has no timestamp above \<open>c\<close>), then \<open>paginate_fetch\<close> returns: every
  continuation from a cursor \<open>c\<close> sets a new cursor that is smaller than \<open>c\<close> and not
  below \<open>earliest_ms\<close>.  Without the hypothesis the loop need not end: a fetcher that
  returns the same full page on every call does not honour the cursor, and
  \<open>paginate_fetch\<close> does not return.
\<close>

theorem paginate_fetch_terminates:
  "(cursor_bounded fetch path bp symbol limit ts \<longrightarrow>
      (\<exists>res. paginate_fetch fetch path symbol limit earliest_ms bp ts s = Some res)
      \<and> (\<forall>s0 c page s1 valid c'.
           fetch s0 path (bp (request_params symbol limit (Some c))) = (Inr (JArr page), s1)
             \<and> page_step ts limit earliest_ms (JArr page) = Inr (valid, Continue c')
           \<longrightarrow> earliest_ms \<le> c' \<and> c' < c))
   \<and> \<not> cursor_bounded (same_page_fetch (JArr [[100], [200]])) path bp symbol 2 first_cell
   \<and> paginate_fetch (same_page_fetch (JArr [[100], [200]])) path symbol 2 0 bp first_cell ()
       = None"
proof -
  have dec: "earliest_ms \<le> c' \<and> c' < c"
    if bound: "cursor_bounded fetch path bp symbol limit ts"
      and f: "fetch s0 path (bp (request_params symbol limit (Some c))) = (Inr (JArr page), s1)"
      and ps: "page_step ts limit earliest_ms (JArr page) = Inr (valid, Continue c')"
    for s0 c page s1 valid c'
  proof -
    from page_step_Continue[OF ps] obtain row0 rest t
      where p: "page = row0 # rest" "ts row0 = Inr t" "earliest_ms < t" "c' = t - 1"
      by auto
    from bound f p have "t \<le> c" unfolding cursor_bounded_def by fastforce
    with p show ?thesis by simp
  qed
  have "cursor_bounded fetch path bp symbol limit ts \<longrightarrow>
      (\<exists>res. paginate_fetch fetch path symbol limit earliest_ms bp ts s = Some res)
      \<and> (\<forall>s0 c page s1 valid c'.
           fetch s0 path (bp (request_params symbol limit (Some c))) = (Inr (JArr page), s1)
             \<and> page_step ts limit earliest_ms (JArr page) = Inr (valid, Continue c')
           \<longrightarrow> earliest_ms \<le> c' \<and> c' < c)"
  proof
    assume b: "cursor_bounded fetch path bp symbol limit ts"
    have r: "\<exists>res. paginate_fetch fetch path symbol limit earliest_ms bp ts s = Some res"
      by (rule paginate_fetch_returns[OF b])
    have d: "\<forall>s0 c page s1 valid c'.
           fetch s0 path (bp (request_params symbol limit (Some c))) = (Inr (JArr page), s1)
             \<and> page_step ts limit earliest_ms (JArr page) = Inr (valid, Continue c')
           \<longrightarrow> earliest_ms \<le> c' \<and> c' < c"
      using dec[OF b] by blast
    from r d show "(\<exists>res. paginate_fetch fetch path symbol limit earliest_ms bp ts s = Some res)
      \<and> (\<forall>s0 c page s1 valid c'.
           fetch s0 path (bp (request_params symbol limit (Some c))) = (Inr (JArr page), s1)
             \<and> page_step ts limit earliest_ms (JArr page) = Inr (valid, Continue c')
           \<longrightarrow> earliest_ms \<le> c' \<and> c' < c)" by (rule conjI)
  qed
  moreover have "\<not> cursor_bounded (same_page_fetch (JArr [[100], [200]])) path bp symbol 2 first_cell"
    by (rule same_page_unbounded)
  moreover have "paginate_fetch (same_page_fetch (JArr [[100], [200]])) path symbol 2 0 bp first_cell ()
       = None"
    by (rule same_page_diverges)
  ultimately show ?thesis by (intro conjI)
qed

theorem paginate_fetch_terminates_witness:
  "\<exists>res. paginate_fetch cursor_fetch ''/example'' ''BTCUSDT'' 2 97 id first_cell () = Some res"
  using paginate_fetch_terminates[of cursor_fetch "''/example''" id "''BTCUSDT''" 2 first_cell
      97 "()"]
    cursor_fetch_bounded[of "''/example''" "''BTCUSDT''" 2]
  by blast

end
